theory Spec2Isabelle
  imports Complex_Main "HOL-Library.Sublist"
begin

section \<open>Python values used by \<^verbatim>\<open>models/pattern.py\<close>\<close>

text \<open>
  Python strings are modelled as \<^typ>\<open>string\<close>: a list of code points below 256.
  Exceptions are values of \<open>py_error\<close>; a function that can raise returns
  \<open>py_error + 'a\<close> with \<open>Inl\<close> for the exception.
\<close>

datatype py_error = TypeError | KeyError | ZeroDivisionError | JSONDecodeError | OutsideModel

text \<open>\<^verbatim>\<open>word in text\<close> on two Python strings: \<open>word\<close> occurs as a contiguous run.\<close>

fun str_in :: "string \<Rightarrow> string \<Rightarrow> bool" where
  "str_in w [] = (w = [])"
| "str_in w (c # cs) = (prefix w (c # cs) \<or> str_in w cs)"

text \<open>\<^verbatim>\<open>str(n)\<close> for a Python int: decimal digits, with a minus sign when negative.\<close>

definition digit_char :: "nat \<Rightarrow> char" where
  "digit_char d = ''0123456789'' ! d"

function str_nat :: "nat \<Rightarrow> string" where
  "str_nat n = (if n < 10 then [digit_char n] else str_nat (n div 10) @ [digit_char (n mod 10)])"
  by pat_completeness auto
termination
  by (relation "measure (\<lambda>n. n)") auto

declare str_nat.simps [simp del]

definition str_int :: "int \<Rightarrow> string" where
  "str_int i = (if i < 0 then CHR ''-'' # str_nat (nat (- i)) else str_nat (nat i))"

text \<open>\<^verbatim>\<open>'{}'.format(x)\<close> where \<open>x\<close> is an int or \<^verbatim>\<open>None\<close>, and where it is a string or \<^verbatim>\<open>None\<close>.\<close>

definition format_int_opt :: "int option \<Rightarrow> string" where
  "format_int_opt x = (case x of None \<Rightarrow> ''None'' | Some i \<Rightarrow> str_int i)"

definition format_str_opt :: "string option \<Rightarrow> string" where
  "format_str_opt x = (case x of None \<Rightarrow> ''None'' | Some s \<Rightarrow> s)"

text \<open>
  \<^verbatim>\<open>str.isspace\<close> on one code point below 256, and \<^verbatim>\<open>str.strip()\<close> without arguments.
\<close>

definition py_isspace :: "char \<Rightarrow> bool" where
  "py_isspace c = (let n = of_char c :: nat in
     (9 \<le> n \<and> n \<le> 13) \<or> (28 \<le> n \<and> n \<le> 32) \<or> n = 133 \<or> n = 160)"

definition py_strip :: "string \<Rightarrow> string" where
  "py_strip s = rev (dropWhile py_isspace (rev (dropWhile py_isspace s)))"

section \<open>Checker\<close>

record Checker =
  global_blacklist :: "string list"

text \<open>\<^verbatim>\<open>Checker.__init__\<close>: \<^verbatim>\<open>global_blacklist or list()\<close>.\<close>

definition Checker_init :: "string list option \<Rightarrow> Checker" where
  "Checker_init bl = \<lparr> global_blacklist = (case bl of None \<Rightarrow> [] | Some ws \<Rightarrow> ws) \<rparr>"

definition status_code_checker :: "int option \<Rightarrow> bool" where
  "status_code_checker status_code =
     (status_code \<noteq> None \<and> (the status_code = 404 \<or> the status_code < 400))"

text \<open>
  The document parser and XPath engine (\<^verbatim>\<open>lxml.etree\<close>) are an external collaborator.
  One evaluation \<^verbatim>\<open>etree.HTML(html).xpath(xpath)\<close> either yields a sequence of results
  (text values, or element nodes, which never equal a string) or raises; a raised
  exception is carried as its formatted traceback text.
\<close>

datatype xitem = XText string | XElem

datatype xpath_eval = XResults "xitem list" | XFault string

type_synonym xpath_engine = "string \<Rightarrow> string \<Rightarrow> xpath_eval"

definition xpath_checker :: "xpath_engine \<Rightarrow> string \<Rightarrow> string \<Rightarrow> string \<Rightarrow> string option" where
  "xpath_checker engine html xpath v =
     (case engine html xpath of
        XFault trace \<Rightarrow> Some trace
      | XResults [] \<Rightarrow> Some (''xpath check failed, '' @ xpath @ '' not found'')
      | XResults (r # _) \<Rightarrow>
          (if r = XText v then None else Some ''xpath check failed, value not equal''))"

text \<open>The loop \<^verbatim>\<open>for word in self.global_blacklist\<close>: the first word found in the text.\<close>

fun blacklist_hit :: "string list \<Rightarrow> string \<Rightarrow> string option" where
  "blacklist_hit [] text = None"
| "blacklist_hit (w # ws) text = (if str_in w text then Some w else blacklist_hit ws text)"

text \<open>
  \<^verbatim>\<open>Checker.check\<close>. The result \<open>Inr None\<close> is Python's implicit \<^verbatim>\<open>return None\<close>
  (the check passed), \<open>Inr (Some d)\<close> a diagnostic string. \<^verbatim>\<open>value not in text\<close> with
  \<^verbatim>\<open>value = None\<close> raises \<^verbatim>\<open>TypeError\<close>.
\<close>

definition Checker_check ::
  "Checker \<Rightarrow> xpath_engine \<Rightarrow> int option \<Rightarrow> string \<Rightarrow> string option \<Rightarrow> string option
     \<Rightarrow> py_error + string option" where
  "Checker_check self engine status_code text rule v =
     (if \<not> status_code_checker status_code
      then Inr (Some (''status_code check failed, get '' @ format_int_opt status_code))
      else case blacklist_hit (global_blacklist self) text of
        Some w \<Rightarrow> Inr (Some (''global blacklist check failed, get '' @ w))
      | None \<Rightarrow>
          (if rule = Some ''whitelist''
           then (case v of
                   None \<Rightarrow> Inl TypeError
                 | Some s \<Rightarrow>
                     (if \<not> str_in s text
                      then Inr (Some (''whitelist check failed, '' @ format_str_opt v @ '' not found''))
                      else Inr None))
           else if rule \<noteq> None \<and> rule \<noteq> Some [] \<and> v \<noteq> None \<and> v \<noteq> Some []
                   \<and> length (py_strip (the rule)) \<noteq> 0 \<and> length (py_strip (the v)) \<noteq> 0
           then Inr (xpath_checker engine text (the rule) (the v))
           else Inr None))"

section \<open>JSON text\<close>

text \<open>
  Modelled from the spec: the serialized pattern record is a JSON object whose fields
  are strings or null. \<^verbatim>\<open>json.dumps\<close> and \<^verbatim>\<open>json.loads\<close> belong to the Python
  standard library, not to this repository; they are modelled on the documents the
  program writes and reads: objects whose keys are strings and whose values are strings
  or \<^verbatim>\<open>null\<close>, over code points below 256. Input that is JSON of another shape, or
  that decodes to a code point from 256 on, gives \<open>OutsideModel\<close>.
\<close>

abbreviation dquote :: char where "dquote \<equiv> CHR 0x22"
abbreviation backslash :: char where "backslash \<equiv> CHR 0x5C"

definition hex_digit :: "nat \<Rightarrow> char" where
  "hex_digit d = ''0123456789abcdef'' ! d"

definition hex_value :: "char \<Rightarrow> nat option" where
  "hex_value c = (let n = of_char c :: nat in
     if 48 \<le> n \<and> n \<le> 57 then Some (n - 48)
     else if 97 \<le> n \<and> n \<le> 102 then Some (n - 87)
     else if 65 \<le> n \<and> n \<le> 70 then Some (n - 55)
     else None)"

text \<open>
  \<^verbatim>\<open>json.dumps\<close> with \<^verbatim>\<open>ensure_ascii=True\<close> (the default): a quote, a backslash and
  the five short control escapes; printable ASCII unchanged; everything else as
  \<^verbatim>\<open>\u00xx\<close>.
\<close>

definition json_escape_char :: "char \<Rightarrow> string" where
  "json_escape_char c = (let n = of_char c :: nat in
     if c = dquote then [backslash, dquote]
     else if c = backslash then [backslash, backslash]
     else if n = 10 then [backslash, CHR ''n'']
     else if n = 13 then [backslash, CHR ''r'']
     else if n = 9 then [backslash, CHR ''t'']
     else if n = 8 then [backslash, CHR ''b'']
     else if n = 12 then [backslash, CHR ''f'']
     else if 32 \<le> n \<and> n \<le> 126 then [c]
     else [backslash, CHR ''u'', CHR ''0'', CHR ''0'', hex_digit (n div 16), hex_digit (n mod 16)])"

definition json_encode_str :: "string \<Rightarrow> string" where
  "json_encode_str s = dquote # concat (map json_escape_char s) @ [dquote]"

definition json_dumps_value :: "string option \<Rightarrow> string" where
  "json_dumps_value v = (case v of None \<Rightarrow> ''null'' | Some s \<Rightarrow> json_encode_str s)"

definition json_item :: "string \<times> string option \<Rightarrow> string" where
  "json_item kv = json_encode_str (fst kv) @ '': '' @ json_dumps_value (snd kv)"

fun json_items :: "(string \<times> string option) list \<Rightarrow> string" where
  "json_items [] = []"
| "json_items [kv] = json_item kv"
| "json_items (kv # kvs) = json_item kv @ '', '' @ json_items kvs"

text \<open>\<^verbatim>\<open>json.dumps(d)\<close> for a dict \<open>d\<close>, given as its items in insertion order.\<close>

definition json_dumps :: "(string \<times> string option) list \<Rightarrow> string" where
  "json_dumps d = ''{'' @ json_items d @ ''}''"

text \<open>\<^verbatim>\<open>json.loads\<close>: white space, string scanning (strict mode), values, objects.\<close>

definition json_ws :: "char \<Rightarrow> bool" where
  "json_ws c = (c = CHR '' '' \<or> c = CHR 0x09 \<or> c = CHR 0x0A \<or> c = CHR 0x0D)"

definition skip_ws :: "string \<Rightarrow> string" where
  "skip_ws s = dropWhile json_ws s"

definition unescape :: "char \<Rightarrow> char option" where
  "unescape e =
     (if e = dquote then Some dquote
      else if e = backslash then Some backslash
      else if e = CHR ''/'' then Some (CHR ''/'')
      else if e = CHR ''b'' then Some (CHR 0x08)
      else if e = CHR ''f'' then Some (CHR 0x0C)
      else if e = CHR ''n'' then Some (CHR 0x0A)
      else if e = CHR ''r'' then Some (CHR 0x0D)
      else if e = CHR ''t'' then Some (CHR 0x09)
      else None)"

definition hex4_value :: "char \<Rightarrow> char \<Rightarrow> char \<Rightarrow> char \<Rightarrow> nat option" where
  "hex4_value a b c d =
     (case (hex_value a, hex_value b, hex_value c, hex_value d) of
        (Some x, Some y, Some z, Some w) \<Rightarrow> Some (((x * 16 + y) * 16 + z) * 16 + w)
      | _ \<Rightarrow> None)"

text \<open>
  \<open>scanstring\<close> reads a string literal from just after its opening quote and returns
  the decoded string with the input that follows the closing quote.
\<close>

fun scanstring :: "string \<Rightarrow> py_error + string \<times> string" where
  "scanstring [] = Inl JSONDecodeError"
| "scanstring (c # cs) =
     (if c = dquote then Inr ([], cs)
      else if c = backslash then
        (case cs of
           [] \<Rightarrow> Inl JSONDecodeError
         | e # cs' \<Rightarrow>
             (if e = CHR ''u'' then
                (case cs' of
                   h1 # h2 # h3 # h4 # rest \<Rightarrow>
                     (case hex4_value h1 h2 h3 h4 of
                        None \<Rightarrow> Inl JSONDecodeError
                      | Some n \<Rightarrow>
                          (if n < 256 then
                             (case scanstring rest of
                                Inl err \<Rightarrow> Inl err
                              | Inr (s, r) \<Rightarrow> Inr (char_of n # s, r))
                           else Inl OutsideModel))
                 | _ \<Rightarrow> Inl JSONDecodeError)
              else
                (case unescape e of
                   None \<Rightarrow> Inl JSONDecodeError
                 | Some ch \<Rightarrow>
                     (case scanstring cs' of
                        Inl err \<Rightarrow> Inl err
                      | Inr (s, r) \<Rightarrow> Inr (ch # s, r)))))
      else if (of_char c :: nat) < 32 then Inl JSONDecodeError
      else (case scanstring cs of
              Inl err \<Rightarrow> Inl err
            | Inr (s, r) \<Rightarrow> Inr (c # s, r)))"

definition parse_value :: "string \<Rightarrow> py_error + string option \<times> string" where
  "parse_value s =
     (case s of
        [] \<Rightarrow> Inl JSONDecodeError
      | c # cs \<Rightarrow>
          (if c = dquote then
             (case scanstring cs of Inl err \<Rightarrow> Inl err | Inr (v, r) \<Rightarrow> Inr (Some v, r))
           else if take 4 s = ''null'' then Inr (None, drop 4 s)
           else Inl OutsideModel))"

text \<open>
  The members of an object, read from just after the opening quote of a key up to the
  closing brace; the pairs are returned in document order.
\<close>

function parse_members :: "string \<Rightarrow> py_error + (string \<times> string option) list \<times> string" where
  "parse_members s =
     (case scanstring s of
        Inl err \<Rightarrow> Inl err
      | Inr (key, r1) \<Rightarrow>
          (case skip_ws r1 of
             [] \<Rightarrow> Inl JSONDecodeError
           | c # r2 \<Rightarrow>
               (if c \<noteq> CHR '':'' then Inl JSONDecodeError
                else
                  (case parse_value (skip_ws r2) of
                     Inl err \<Rightarrow> Inl err
                   | Inr (v, r3) \<Rightarrow>
                       (case skip_ws r3 of
                          [] \<Rightarrow> Inl JSONDecodeError
                        | d # r4 \<Rightarrow>
                            (if d = CHR ''}'' then Inr ([(key, v)], r4)
                             else if d = CHR '','' then
                               (case skip_ws r4 of
                                  [] \<Rightarrow> Inl JSONDecodeError
                                | q # r5 \<Rightarrow>
                                    (if q = dquote then
                                       (case parse_members r5 of
                                          Inl err \<Rightarrow> Inl err
                                        | Inr (ms, rest) \<Rightarrow> Inr ((key, v) # ms, rest))
                                     else Inl JSONDecodeError))
                             else Inl JSONDecodeError))))))"
  by pat_completeness auto
termination
proof (relation "measure length")
  show "wf (measure length)" by simp
next
  fix s :: string and x2 key r1 c r2 x2a v r3 d r4 q r5
  assume scan: "scanstring s = Inr x2" "(key, r1) = x2"
    and colon: "skip_ws r1 = c # r2"
    and val: "parse_value (skip_ws r2) = Inr x2a" "(v, r3) = x2a"
    and sep: "skip_ws r3 = d # r4"
    and nxt: "skip_ws r4 = q # r5"
  have scan_shorter: "length r < length t" if "scanstring t = Inr (u, r)" for t u r
    using that
  proof (induction "length t" arbitrary: t u r rule: less_induct)
    case less
    from less.prems obtain c cs where t: "t = c # cs" by (cases t) auto
    show ?case
    proof (cases "c = dquote")
      case True
      with less.prems t show ?thesis by simp
    next
      case nq: False
      show ?thesis
      proof (cases "c = backslash")
        case True
        with nq less.prems t obtain e cs' where cs: "cs = e # cs'"
          by (cases cs) auto
        show ?thesis
        proof (cases "e = CHR ''u''")
          case eu: True
          with nq True cs t less.prems obtain h1 h2 h3 h4 rest u' where
            rest: "cs' = h1 # h2 # h3 # h4 # rest" "scanstring rest = Inr (u', r)"
            by (auto split: list.splits option.splits if_splits sum.splits)
          have "length rest < length t" using t cs rest(1) by simp
          from less.hyps [OF this rest(2)] have "length r < length rest" .
          with t cs rest(1) show ?thesis by simp
        next
          case neu: False
          with nq True cs t less.prems obtain u' where
            ch: "scanstring cs' = Inr (u', r)"
            by (auto split: option.splits sum.splits)
          have "length cs' < length t" using t cs by simp
          from less.hyps [OF this ch] have "length r < length cs'" .
          with t cs show ?thesis by simp
        qed
      next
        case nb: False
        with nq t less.prems obtain u' where
          lit: "scanstring cs = Inr (u', r)"
          by (auto split: if_splits sum.splits)
        have "length cs < length t" using t by simp
        from less.hyps [OF this lit] have "length r < length cs" .
        with t show ?thesis by simp
      qed
    qed
  qed
  have ws_shorter: "length (skip_ws t) \<le> length t" for t
    by (simp add: skip_ws_def length_dropWhile_le)
  have value_shorter: "length r \<le> length t" if "parse_value t = Inr (u, r)" for t u r
  proof (cases t)
    case Nil
    with that show ?thesis by (simp add: parse_value_def)
  next
    case (Cons a as)
    show ?thesis
    proof (cases "a = dquote")
      case True
      with that Cons obtain w where "scanstring as = Inr (w, r)"
        by (auto simp: parse_value_def split: sum.splits)
      then have "length r < length as" by (rule scan_shorter)
      with Cons show ?thesis by simp
    next
      case False
      with that Cons have "r = drop 4 t"
        by (auto simp: parse_value_def split: if_splits)
      then show ?thesis by simp
    qed
  qed
  from scan have "length r1 < length s" using scan_shorter [of s key r1] by simp
  moreover from colon have "length r2 < length r1"
    using ws_shorter [of r1] by simp
  moreover from val have "length r3 \<le> length (skip_ws r2)"
    using value_shorter [of "skip_ws r2" v r3] by simp
  moreover have "length (skip_ws r2) \<le> length r2" by (rule ws_shorter)
  moreover from sep have "length r4 < length r3" using ws_shorter [of r3] by simp
  moreover from nxt have "length r5 < length r4" using ws_shorter [of r4] by simp
  ultimately show "(r5, s) \<in> measure length" by simp
qed

declare parse_members.simps [simp del]

definition parse_object :: "string \<Rightarrow> py_error + (string \<times> string option) list \<times> string" where
  "parse_object s =
     (case skip_ws s of
        [] \<Rightarrow> Inl JSONDecodeError
      | c # r \<Rightarrow>
          (if c = CHR ''}'' then Inr ([], r)
           else if c = dquote then parse_members r
           else Inl JSONDecodeError))"

text \<open>
  \<^verbatim>\<open>json.loads\<close> on a document whose top-level value is an object; trailing input
  other than white space is an error.
\<close>

definition json_loads :: "string \<Rightarrow> py_error + (string \<times> string option) list" where
  "json_loads s =
     (case skip_ws s of
        [] \<Rightarrow> Inl JSONDecodeError
      | c # r \<Rightarrow>
          (if c = CHR ''{'' then
             (case parse_object r of
                Inl err \<Rightarrow> Inl err
              | Inr (d, rest) \<Rightarrow> (if skip_ws rest = [] then Inr d else Inl JSONDecodeError))
           else Inl OutsideModel))"

text \<open>
  \<^verbatim>\<open>d[k]\<close> on the dict built from the parsed pairs: for a repeated key the last pair
  counts; a missing key raises \<^verbatim>\<open>KeyError\<close>.
\<close>

definition dict_get :: "(string \<times> 'v) list \<Rightarrow> string \<Rightarrow> py_error + 'v" where
  "dict_get d k = (case map_of (rev d) k of None \<Rightarrow> Inl KeyError | Some v \<Rightarrow> Inr v)"

text \<open>A list comprehension whose element expression can raise: the first error wins.\<close>

fun traverse :: "('a \<Rightarrow> py_error + 'b) \<Rightarrow> 'a list \<Rightarrow> py_error + 'b list" where
  "traverse f [] = Inr []"
| "traverse f (x # xs) =
     (case f x of
        Inl err \<Rightarrow> Inl err
      | Inr y \<Rightarrow> (case traverse f xs of Inl err \<Rightarrow> Inl err | Inr ys \<Rightarrow> Inr (y # ys)))"

section \<open>Pattern\<close>

text \<open>
  An \<^verbatim>\<open>OrderedDict\<close> from time label to count is the list of its items in insertion
  order, with pairwise different keys.
\<close>

type_synonym odict = "(string \<times> int) list"

definition odict_keys :: "odict \<Rightarrow> string list" where
  "odict_keys c = map fst c"

definition odict_contains :: "odict \<Rightarrow> string \<Rightarrow> bool" where
  "odict_contains c k = (k \<in> set (odict_keys c))"

text \<open>\<^verbatim>\<open>c[k]\<close>: raises \<^verbatim>\<open>KeyError\<close> for a missing key.\<close>

definition odict_get :: "odict \<Rightarrow> string \<Rightarrow> py_error + int" where
  "odict_get c k = (case map_of c k of None \<Rightarrow> Inl KeyError | Some n \<Rightarrow> Inr n)"

text \<open>\<^verbatim>\<open>c[k] = n\<close>: an existing key keeps its position, a new key goes to the end.\<close>

fun odict_set :: "odict \<Rightarrow> string \<Rightarrow> int \<Rightarrow> odict" where
  "odict_set [] k n = [(k, n)]"
| "odict_set ((k', n') # c) k n = (if k' = k then (k, n) # c else (k', n') # odict_set c k n)"

text \<open>\<^verbatim>\<open>c.popitem(last=False)\<close>: removes the first item; raises on an empty dictionary.\<close>

definition popitem_first :: "odict \<Rightarrow> py_error + odict" where
  "popitem_first c = (case c of [] \<Rightarrow> Inl KeyError | _ # rest \<Rightarrow> Inr rest)"

text \<open>\<^verbatim>\<open>for _ in range(del_num): c.popitem(last=False)\<close>\<close>

fun popitem_loop :: "nat \<Rightarrow> odict \<Rightarrow> py_error + odict" where
  "popitem_loop 0 c = Inr c"
| "popitem_loop (Suc n) c =
     (case popitem_first c of Inl e \<Rightarrow> Inl e | Inr c' \<Rightarrow> popitem_loop n c')"

text \<open>
  The fields of a \<^verbatim>\<open>Pattern\<close>. The saver (used only by \<^verbatim>\<open>score_and_save\<close>) and the
  \<^verbatim>\<open>asyncio.Lock\<close> are left out: the body of \<^verbatim>\<open>counter\<close> holds the lock throughout
  and has no suspension point, so one call is one state transition.
\<close>

record Pattern =
  pattern_str :: string
  checker :: Checker
  rule :: "string option"
  val :: "string option"
  success_counter :: odict
  fail_counter :: odict

definition Pattern_init :: "string \<Rightarrow> string option \<Rightarrow> string option \<Rightarrow> Checker \<Rightarrow> Pattern" where
  "Pattern_init s r v ch =
     \<lparr> pattern_str = s, checker = ch, rule = r, val = v,
       success_counter = [], fail_counter = [] \<rparr>"

text \<open>\<^verbatim>\<open>Pattern.to_dict\<close> (the items in the order written) and \<^verbatim>\<open>Pattern.dumps\<close>.\<close>

definition to_dict :: "Pattern \<Rightarrow> (string \<times> string option) list" where
  "to_dict self =
     [(''pattern'', Some (pattern_str self)), (''rule'', rule self), (''value'', val self)]"

definition dumps :: "Pattern \<Rightarrow> string" where
  "dumps self = json_dumps (to_dict self)"

text \<open>The statements of \<^verbatim>\<open>Pattern.counter\<close> on the chosen dictionary \<open>c\<close>.\<close>

definition counter_body :: "odict \<Rightarrow> string \<Rightarrow> py_error + odict" where
  "counter_body c now =
     (case (if odict_contains c now
            then (case odict_get c now of Inl e \<Rightarrow> Inl e | Inr n \<Rightarrow> Inr (odict_set c now (n + 1)))
            else Inr (odict_set c now 1)) of
        Inl e \<Rightarrow> Inl e
      | Inr c1 \<Rightarrow>
          (let del_num = int (length c1) - 10
           in if del_num > 0 then popitem_loop (nat del_num) c1 else Inr c1))"

definition counter :: "Pattern \<Rightarrow> string \<Rightarrow> bool \<Rightarrow> py_error + Pattern" where
  "counter self now valid =
     (if valid
      then (case counter_body (success_counter self) now of
              Inl e \<Rightarrow> Inl e | Inr c \<Rightarrow> Inr (self\<lparr>success_counter := c\<rparr>))
      else (case counter_body (fail_counter self) now of
              Inl e \<Rightarrow> Inl e | Inr c \<Rightarrow> Inr (self\<lparr>fail_counter := c\<rparr>)))"

text \<open>A sequence of calls \<^verbatim>\<open>counter(now, valid)\<close> on one Pattern, in the order given.\<close>

fun counter_calls :: "Pattern \<Rightarrow> (string \<times> bool) list \<Rightarrow> py_error + Pattern" where
  "counter_calls self [] = Inr self"
| "counter_calls self ((now, valid) # calls) =
     (case counter self now valid of Inl e \<Rightarrow> Inl e | Inr self' \<Rightarrow> counter_calls self' calls)"



text \<open>
  \<^verbatim>\<open>Pattern.check\<close>, given the status and the body text of the response: an empty list
  when the check passes, else the one diagnostic.
\<close>

definition Pattern_check :: "Pattern \<Rightarrow> xpath_engine \<Rightarrow> int option \<Rightarrow> string \<Rightarrow> py_error + string list" where
  "Pattern_check self engine status text =
     (case Checker_check (checker self) engine status text (rule self) (val self) of
        Inl e \<Rightarrow> Inl e
      | Inr None \<Rightarrow> Inr []
      | Inr (Some result) \<Rightarrow> Inr [result])"

text \<open>
  The insertion history of one counter, as the specification describes it: a label is
  inserted when it is not among the ten most recently inserted ones. \<open>insertion_log\<close>
  lists the insertions in order, over the labels of the calls that reach that counter.
\<close>

definition last_ten :: "'a list \<Rightarrow> 'a list" where
  "last_ten xs = drop (length xs - 10) xs"

fun insertion_log :: "string list \<Rightarrow> string list \<Rightarrow> string list" where
  "insertion_log hist [] = hist"
| "insertion_log hist (l # ls) =
     insertion_log (if l \<in> set (last_ten hist) then hist else hist @ [l]) ls"

definition success_labels :: "(string \<times> bool) list \<Rightarrow> string list" where
  "success_labels calls = map fst (filter snd calls)"

definition fail_labels :: "(string \<times> bool) list \<Rightarrow> string list" where
  "fail_labels calls = map fst (filter (\<lambda>c. \<not> snd c) calls)"

section \<open>CheckPatternTrie\<close>

text \<open>
  Modelled from the spec: the base class \<^verbatim>\<open>pygtrie.CharTrie\<close> is a third-party library,
  not part of this repository. It is modelled at its interface, as the finite map from
  the stored keys to their values: item assignment stores a value under a key, item
  deletion raises \<^verbatim>\<open>KeyError\<close> for a key without a value, and \<^verbatim>\<open>longest_prefix(key)\<close>
  walks the prefixes of \<open>key\<close> from the shortest to the longest and returns the last
  one that has a value (a step with key \<^verbatim>\<open>None\<close>, here \<open>None\<close>, when there is none).
\<close>

type_synonym CharTrie = "string \<rightharpoonup> string"

definition CharTrie_setitem :: "CharTrie \<Rightarrow> string \<Rightarrow> string \<Rightarrow> CharTrie" where
  "CharTrie_setitem t key v = t(key \<mapsto> v)"

definition CharTrie_delitem :: "CharTrie \<Rightarrow> string \<Rightarrow> py_error + CharTrie" where
  "CharTrie_delitem t key = (case t key of None \<Rightarrow> Inl KeyError | Some _ \<Rightarrow> Inr (t(key := None)))"

definition prefix_steps :: "CharTrie \<Rightarrow> string \<Rightarrow> (string \<times> string) list" where
  "prefix_steps t key = List.map_filter (\<lambda>k. map_option (Pair k) (t k)) (prefixes key)"

definition longest_prefix :: "CharTrie \<Rightarrow> string \<Rightarrow> (string \<times> string) option" where
  "longest_prefix t key =
     (case prefix_steps t key of [] \<Rightarrow> None | s # ss \<Rightarrow> Some (last (s # ss)))"

text \<open>
  \<^verbatim>\<open>re.sub(r'https?://', '', url, 1)\<close>: the leftmost occurrence of \<^verbatim>\<open>http://\<close> or
  \<^verbatim>\<open>https://\<close>, wherever it stands, is removed.
\<close>

fun re_sub_first :: "string \<Rightarrow> string" where
  "re_sub_first [] = []"
| "re_sub_first (c # cs) =
     (if prefix ''http://'' (c # cs) then drop 7 (c # cs)
      else if prefix ''https://'' (c # cs) then drop 8 (c # cs)
      else c # re_sub_first cs)"

definition remove_http_prefix :: "string \<Rightarrow> string" where
  "remove_http_prefix url = (if prefix ''http'' url then re_sub_first url else url)"

text \<open>\<^verbatim>\<open>CheckPatternTrie.__setitem__\<close>; \<^verbatim>\<open>__delitem__\<close> is inherited unchanged.\<close>

definition CheckPatternTrie_setitem :: "CharTrie \<Rightarrow> string \<Rightarrow> string \<Rightarrow> CharTrie" where
  "CheckPatternTrie_setitem t key v = CharTrie_setitem t (remove_http_prefix key) v"

definition closest_pattern :: "CharTrie \<Rightarrow> string \<Rightarrow> string \<times> string" where
  "closest_pattern t url =
     (case longest_prefix t (remove_http_prefix url) of
        Some (step_key, step_value) \<Rightarrow> (step_key, step_value)
      | None \<Rightarrow> (''public_proxies'', json_dumps [(''rule'', None), (''value'', None)]))"

text \<open>
  The normalization as the specification words it: a leading \<^verbatim>\<open>http://\<close> or
  \<^verbatim>\<open>https://\<close> is stripped, anything else is left alone.
\<close>

definition strip_protocol :: "string \<Rightarrow> string" where
  "strip_protocol url =
     (if prefix ''http://'' url then drop 7 url
      else if prefix ''https://'' url then drop 8 url
      else url)"

section \<open>PatternManager\<close>

text \<open>
  The state of a \<^verbatim>\<open>PatternManager\<close>: its checker, the in-memory index \<^verbatim>\<open>_patterns\<close>, the
  trie \<^verbatim>\<open>t\<close>, and the fields of the hash \<^verbatim>\<open>response_check_pattern\<close> in the remote
  store. Store calls are taken to succeed; a lost connection is outside the model.
\<close>

record PatternManager =
  mgr_checker :: Checker
  patterns_index :: "string \<rightharpoonup> Pattern"
  trie :: CharTrie
  redis_hash :: "string \<rightharpoonup> string"

text \<open>
  \<^verbatim>\<open>PatternManager.patterns\<close> with the default \<^verbatim>\<open>format_type='raw'\<close>, on the reply \<open>d\<close> of
  \<^verbatim>\<open>hgetall\<close> (fields with their values): every value is parsed first, then the Patterns
  are built. A record whose \<^verbatim>\<open>pattern\<close> is \<^verbatim>\<open>null\<close> is outside the model.
\<close>

definition make_pattern :: "Checker \<Rightarrow> (string \<times> string option) list \<Rightarrow> py_error + Pattern" where
  "make_pattern ch d =
     (case dict_get d ''pattern'' of
        Inl err \<Rightarrow> Inl err
      | Inr ps \<Rightarrow>
          (case dict_get d ''rule'' of
             Inl err \<Rightarrow> Inl err
           | Inr r \<Rightarrow>
               (case dict_get d ''value'' of
                  Inl err \<Rightarrow> Inl err
                | Inr v \<Rightarrow>
                    (case ps of
                       None \<Rightarrow> Inl OutsideModel
                     | Some s \<Rightarrow> Inr (Pattern_init s r v ch)))))"

definition patterns :: "Checker \<Rightarrow> (string \<times> string) list \<Rightarrow> py_error + Pattern list" where
  "patterns ch d =
     (case traverse json_loads (map snd d) of
        Inl err \<Rightarrow> Inl err
      | Inr docs \<Rightarrow> traverse (make_pattern ch) docs)"

definition get_pattern :: "PatternManager \<Rightarrow> string \<Rightarrow> Pattern option" where
  "get_pattern self key = patterns_index self key"

definition add :: "PatternManager \<Rightarrow> string \<Rightarrow> string option \<Rightarrow> string option \<Rightarrow> PatternManager" where
  "add self pattern r v =
     (let p = Pattern_init pattern r v (mgr_checker self)
      in self\<lparr> patterns_index := (patterns_index self)(pattern \<mapsto> p),
               trie := CheckPatternTrie_setitem (trie self) pattern (dumps p),
               redis_hash := (redis_hash self)(pattern \<mapsto> dumps p) \<rparr>)"

text \<open>
  \<^verbatim>\<open>PatternManager.delete\<close>. An exception leaves the statements before it done: \<open>Inl\<close>
  carries the error with the state at the point of the raise.
\<close>

definition delete :: "PatternManager \<Rightarrow> string \<Rightarrow> py_error \<times> PatternManager + PatternManager" where
  "delete self pattern =
     (case CharTrie_delitem (trie self) pattern of
        Inl err \<Rightarrow> Inl (err, self)
      | Inr t' \<Rightarrow>
          (let s1 = self\<lparr> trie := t' \<rparr>
           in case patterns_index s1 pattern of
                None \<Rightarrow> Inl (KeyError, s1)
              | Some _ \<Rightarrow>
                  Inr (s1\<lparr> patterns_index := (patterns_index s1)(pattern := None),
                          redis_hash := (redis_hash s1)(pattern := None) \<rparr>)))"

definition update :: "PatternManager \<Rightarrow> string \<Rightarrow> string option \<Rightarrow> string option \<Rightarrow> PatternManager" where
  "update self pattern r v = add self pattern r v"

text \<open>
  \<^verbatim>\<open>PatternManager.__aenter__\<close> on the reply \<open>d\<close> of \<^verbatim>\<open>hgetall\<close>: the trie is filled from
  the stored fields, the index from the parsed records (a later record with the same
  pattern string replaces an earlier one), and the sentinel is added.
\<close>

definition aenter :: "Checker \<Rightarrow> (string \<times> string) list \<Rightarrow> py_error + PatternManager" where
  "aenter ch d =
     (let t0 = fold (\<lambda>(k, v) t. CheckPatternTrie_setitem t k v) d Map.empty
      in case patterns ch d of
           Inl err \<Rightarrow> Inl err
         | Inr ps \<Rightarrow>
             Inr (add \<lparr> mgr_checker = ch,
                        patterns_index = fold (\<lambda>p m. m(pattern_str p \<mapsto> p)) ps Map.empty,
                        trie = t0,
                        redis_hash = map_of d \<rparr>
                  ''public_proxies'' None None))"

text \<open>The manager that \<open>aenter\<close> gives on an empty store.\<close>

definition fresh_manager :: "Checker \<Rightarrow> PatternManager" where
  "fresh_manager ch =
     add \<lparr> mgr_checker = ch, patterns_index = Map.empty, trie = Map.empty,
           redis_hash = Map.empty \<rparr> ''public_proxies'' None None"

text \<open>
  Closed form of one run of the body of \<^verbatim>\<open>counter\<close> (shown below to be what
  \<open>counter_body\<close> returns), and the property that every stored count is positive.
\<close>

definition counter_next :: "odict \<Rightarrow> string \<Rightarrow> odict" where
  "counter_next c now =
     last_ten (if now \<in> set (map fst c) then odict_set c now (the (map_of c now) + 1)
               else c @ [(now, 1)])"



text \<open>An XPath engine that finds nothing, for concrete evaluations.\<close>

definition no_results :: xpath_engine where
  "no_results html xpath = XResults []"

section \<open>Properties of the Checker\<close>

lemma str_in_iff: "str_in w t \<longleftrightarrow> (\<exists>ps ss. t = ps @ w @ ss)"
proof (induction t)
  case Nil
  then show ?case by auto
next
  case (Cons c cs)
  show ?case
  proof
    assume "str_in w (c # cs)"
    then consider "prefix w (c # cs)" | "str_in w cs" by auto
    then show "\<exists>ps ss. c # cs = ps @ w @ ss"
    proof cases
      case 1
      then obtain ss where "c # cs = w @ ss" by (auto simp: prefix_def)
      then have "c # cs = [] @ w @ ss" by simp
      then show ?thesis by blast
    next
      case 2
      with Cons.IH obtain ps ss where "cs = ps @ w @ ss" by blast
      then have "c # cs = (c # ps) @ w @ ss" by simp
      then show ?thesis by blast
    qed
  next
    assume "\<exists>ps ss. c # cs = ps @ w @ ss"
    then obtain ps ss where eq: "c # cs = ps @ w @ ss" by blast
    show "str_in w (c # cs)"
    proof (cases ps)
      case Nil
      with eq have "prefix w (c # cs)" by (simp add: prefix_def)
      then show ?thesis by simp
    next
      case (Cons p ps')
      with eq have "cs = ps' @ w @ ss" by simp
      with Cons.IH have "str_in w cs" by blast
      then show ?thesis by simp
    qed
  qed
qed

lemma blacklist_hit_find: "blacklist_hit ws text = find (\<lambda>w. str_in w text) ws"
  by (induction ws) auto

lemma blacklist_hit_None: "blacklist_hit ws text = None \<longleftrightarrow> (\<forall>w \<in> set ws. \<not> str_in w text)"
  by (induction ws) auto

lemma blacklist_hit_Some:
  "blacklist_hit ws text = Some w \<Longrightarrow> w \<in> set ws \<and> str_in w text"
  by (induction ws) (auto split: if_splits)



text \<open>
  Claim C5. When the status code is accepted and some word of the global blacklist
  occurs in the body, \<open>Checker_check\<close> returns the blacklist diagnostic, naming the first
  blacklisted word (in list order) that occurs in the body, whatever the rule and the
  value are: the whitelist and XPath stages are not reached.
\<close>

theorem blacklist_checked_first:
  assumes "status_code_checker sc"
    and "w \<in> set (global_blacklist self)"
    and "text = ps @ w @ ss"
  shows "\<exists>w' \<in> set (global_blacklist self). str_in w' text \<and>
           find (\<lambda>b. str_in b text) (global_blacklist self) = Some w' \<and>
           Checker_check self engine sc text r v =
             Inr (Some (''global blacklist check failed, get '' @ w'))"
proof -
  from assms(3) have "str_in w text" using str_in_iff by blast
  with assms(2) have "blacklist_hit (global_blacklist self) text \<noteq> None"
    by (auto simp: blacklist_hit_None)
  then obtain w' where hit: "blacklist_hit (global_blacklist self) text = Some w'" by blast
  then have "w' \<in> set (global_blacklist self)" "str_in w' text"
    using blacklist_hit_Some by blast+
  moreover from hit have "find (\<lambda>b. str_in b text) (global_blacklist self) = Some w'"
    by (simp add: blacklist_hit_find)
  moreover from hit assms(1) have "Checker_check self engine sc text r v =
             Inr (Some (''global blacklist check failed, get '' @ w'))"
    by (simp add: Checker_check_def)
  ultimately show ?thesis by blast
qed

theorem blacklist_checked_first_witness:
  "status_code_checker (Some 200)
   \<and> ''captcha'' \<in> set (global_blacklist \<lparr>global_blacklist = [''captcha'']\<rparr>)
   \<and> ''solve captcha now'' = ''solve '' @ ''captcha'' @ '' now''
   \<and> Checker_check \<lparr>global_blacklist = [''captcha'']\<rparr> no_results (Some 200)
        ''solve captcha now'' (Some ''whitelist'') None
      = Inr (Some ''global blacklist check failed, get captcha'')"
proof -
  have h1: "status_code_checker (Some 200)" by (simp add: status_code_checker_def)
  have h2: "''captcha'' \<in> set (global_blacklist \<lparr>global_blacklist = [''captcha'']\<rparr>)" by simp
  have h3: "''solve captcha now'' = ''solve '' @ ''captcha'' @ '' now''" by simp
  from h1 h2 h3 show ?thesis
    using blacklist_checked_first [OF h1 h2 h3, of no_results "Some ''whitelist''" None]
    by simp
qed

text \<open>
  Claim C10 does not hold for every call: a rejected status code is reported before the
  whitelist test is reached, so the call returns a diagnostic and raises nothing.
\<close>

theorem whitelist_null_value_counterexample:
  "Checker_check \<lparr>global_blacklist = []\<rparr> no_results (Some 500) ''body'' (Some ''whitelist'') None
     = Inr (Some ''status_code check failed, get 500'')
   \<and> Checker_check \<lparr>global_blacklist = []\<rparr> no_results (Some 500) ''body'' (Some ''whitelist'') None
     \<noteq> Inl TypeError"
  by (simp add: Checker_check_def status_code_checker_def format_int_opt_def
        str_int_def str_nat.simps digit_char_def)

text \<open>
  Claim C10, amended. With the rule \<^verbatim>\<open>whitelist\<close> and no value, every call whose status
  code is accepted and whose body contains no blacklisted word raises \<^verbatim>\<open>TypeError\<close>
  at the membership test, in \<open>Checker_check\<close> and so in the Pattern's check.
\<close>

theorem whitelist_null_value_raises:
  assumes "status_code_checker sc"
    and "\<forall>w \<in> set (global_blacklist self). \<not> str_in w text"
  shows "Checker_check self engine sc text (Some ''whitelist'') None = Inl TypeError
         \<and> Pattern_check (Pattern_init s (Some ''whitelist'') None self) engine sc text = Inl TypeError"
proof -
  from assms(2) have "blacklist_hit (global_blacklist self) text = None"
    by (simp add: blacklist_hit_None)
  with assms(1) show ?thesis
    by (simp add: Checker_check_def Pattern_check_def Pattern_init_def)
qed

theorem whitelist_null_value_raises_witness:
  "status_code_checker (Some 200)
   \<and> \<not> str_in ''captcha'' ''hello''
   \<and> Checker_check \<lparr>global_blacklist = [''captcha'']\<rparr> no_results (Some 200) ''hello''
        (Some ''whitelist'') None = Inl TypeError"
proof -
  have h1: "status_code_checker (Some 200)" by (simp add: status_code_checker_def)
  have h2: "\<forall>w \<in> set (global_blacklist \<lparr>global_blacklist = [''captcha'']\<rparr>). \<not> str_in w ''hello''"
    by simp
  from h1 h2 show ?thesis
    using whitelist_null_value_raises [OF h1 h2, of no_results "''a.com''"]
    by simp
qed

section \<open>Properties of the counters\<close>

lemma odict_set_present:
  "k \<in> set (map fst c) \<Longrightarrow> map fst (odict_set c k n) = map fst c"
proof (induction c)
  case Nil
  then show ?case by simp
next
  case (Cons a c)
  obtain k' n' where a: "a = (k', n')" by (cases a)
  show ?case
  proof (cases "k' = k")
    case True
    with a show ?thesis by simp
  next
    case False
    with Cons.prems a have "k \<in> set (map fst c)" by auto
    with Cons.IH False a show ?thesis by simp
  qed
qed

lemma odict_set_length:
  "k \<in> set (map fst c) \<Longrightarrow> length (odict_set c k n) = length c"
  using odict_set_present [of k c n] by (metis length_map)

lemma odict_set_absent:
  "k \<notin> set (map fst c) \<Longrightarrow> odict_set c k n = c @ [(k, n)]"
  by (induction c) auto

lemma odict_get_present:
  "k \<in> set (map fst c) \<Longrightarrow> odict_get c k = Inr (the (map_of c k))"
  by (auto simp: odict_get_def map_of_eq_None_iff split: option.splits)

lemma popitem_loop_drop:
  "popitem_loop n c = (if n \<le> length c then Inr (drop n c) else Inl KeyError)"
  by (induction n c rule: popitem_loop.induct)
     (auto simp: popitem_first_def split: list.splits)

lemma nat_int_minus: "nat (int n - 10) = n - 10"
  by simp

lemma del_loop: "(let del_num = int (length c1) - 10
           in if del_num > 0 then popitem_loop (nat del_num) c1 else Inr c1) = Inr (last_ten c1)"
proof -
  have n: "nat (int (length c1) - 10) = length c1 - 10" by (rule nat_int_minus)
  show ?thesis
    unfolding Let_def popitem_loop_drop n last_ten_def by auto
qed

lemma counter_body_total: "counter_body c now = Inr (counter_next c now)"
proof (cases "now \<in> set (map fst c)")
  case True
  then show ?thesis
    unfolding counter_body_def counter_next_def odict_contains_def odict_keys_def
    by (simp only: odict_get_present [OF True] if_True sum.case del_loop)
next
  case False
  then show ?thesis
    unfolding counter_body_def counter_next_def odict_contains_def odict_keys_def
    by (simp only: odict_set_absent [OF False] if_False sum.case del_loop)
qed

lemma last_ten_map: "map f (last_ten xs) = last_ten (map f xs)"
  by (simp add: last_ten_def drop_map)

lemma last_ten_idem: "last_ten (last_ten xs) = last_ten xs"
  by (simp add: last_ten_def)

lemma last_ten_snoc: "last_ten (last_ten xs @ [x]) = last_ten (xs @ [x])"
proof (cases "length xs \<le> 10")
  case True
  then show ?thesis by (simp add: last_ten_def)
next
  case False
  then have "length xs - 10 + 1 = length xs - 9" by simp
  with False show ?thesis by (simp add: last_ten_def)
qed

lemma length_last_ten: "length (last_ten xs) = min 10 (length xs)"
  by (auto simp: last_ten_def)

lemma counter_next_keys:
  assumes "map fst c = last_ten h"
  shows "map fst (counter_next c now) =
           last_ten (if now \<in> set (last_ten h) then h else h @ [now])"
proof (cases "now \<in> set (map fst c)")
  case True
  then have "map fst (counter_next c now) = last_ten (map fst c)"
    by (simp add: counter_next_def last_ten_map odict_set_present)
  with True assms show ?thesis by (simp add: last_ten_idem)
next
  case False
  then have "map fst (counter_next c now) = last_ten (map fst c @ [now])"
    by (simp add: counter_next_def last_ten_map)
  with False assms show ?thesis by (simp add: last_ten_snoc)
qed

lemma counter_calls_keys:
  assumes "map fst (success_counter p) = last_ten sh"
    and "map fst (fail_counter p) = last_ten fh"
  shows "\<exists>p'. counter_calls p calls = Inr p'
           \<and> map fst (success_counter p') = last_ten (insertion_log sh (success_labels calls))
           \<and> map fst (fail_counter p') = last_ten (insertion_log fh (fail_labels calls))"
  using assms
proof (induction calls arbitrary: p sh fh)
  case Nil
  then show ?case by (simp add: success_labels_def fail_labels_def)
next
  case (Cons call calls)
  obtain now valid where call: "call = (now, valid)" by (cases call)
  show ?case
  proof (cases valid)
    case True
    let ?p = "p\<lparr>success_counter := counter_next (success_counter p) now\<rparr>"
    let ?sh = "if now \<in> set (last_ten sh) then sh else sh @ [now]"
    have step: "counter p now True = Inr ?p"
      by (simp add: counter_def counter_body_total)
    have a: "map fst (success_counter ?p) = last_ten ?sh"
      using counter_next_keys [OF Cons.prems(1)] by simp
    have b: "map fst (fail_counter ?p) = last_ten fh"
      using Cons.prems(2) by simp
    have sl: "insertion_log sh (success_labels (call # calls)) = insertion_log ?sh (success_labels calls)"
      and fl: "fail_labels (call # calls) = fail_labels calls"
      using True call by (simp_all add: success_labels_def fail_labels_def)
    have run: "counter_calls p (call # calls) = counter_calls ?p calls"
      using True call step by simp
    show ?thesis
      unfolding sl fl run by (rule Cons.IH [OF a b])
  next
    case False
    let ?p = "p\<lparr>fail_counter := counter_next (fail_counter p) now\<rparr>"
    let ?fh = "if now \<in> set (last_ten fh) then fh else fh @ [now]"
    have step: "counter p now False = Inr ?p"
      by (simp add: counter_def counter_body_total)
    have b: "map fst (fail_counter ?p) = last_ten ?fh"
      using counter_next_keys [OF Cons.prems(2)] by simp
    have a: "map fst (success_counter ?p) = last_ten sh"
      using Cons.prems(1) by simp
    have fl: "insertion_log fh (fail_labels (call # calls)) = insertion_log ?fh (fail_labels calls)"
      and sl: "success_labels (call # calls) = success_labels calls"
      using False call by (simp_all add: success_labels_def fail_labels_def)
    have run: "counter_calls p (call # calls) = counter_calls ?p calls"
      using False call step by simp
    show ?thesis
      unfolding sl fl run by (rule Cons.IH [OF a b])
  qed
qed

lemma suffix_last_ten: "suffix (last_ten xs) xs"
  by (simp add: last_ten_def suffix_drop)

lemma insertion_log_distinct:
  "distinct (last_ten h) \<Longrightarrow> distinct (last_ten (insertion_log h ls))"
proof (induction ls arbitrary: h)
  case Nil
  then show ?case by simp
next
  case (Cons l ls)
  show ?case
  proof (cases "l \<in> set (last_ten h)")
    case True
    with Cons show ?thesis by simp
  next
    case False
    with Cons.prems have "distinct (last_ten h @ [l])" by simp
    moreover have "suffix (last_ten (last_ten h @ [l])) (last_ten h @ [l])"
      by (rule suffix_last_ten)
    ultimately have "distinct (last_ten (h @ [l]))"
      unfolding last_ten_snoc by (metis distinct_suffix)
    with Cons.IH False show ?thesis by simp
  qed
qed

lemma set_last_ten: "set (last_ten h) \<subseteq> set h"
  by (rule set_mono_suffix [OF suffix_last_ten])

lemma insertion_log_superset: "set h \<union> set ls \<subseteq> set (insertion_log h ls)"
proof (induction ls arbitrary: h)
  case Nil
  then show ?case by simp
next
  case (Cons l ls)
  show ?case
  proof (cases "l \<in> set (last_ten h)")
    case True
    have "l \<in> set h" by (rule subsetD [OF set_last_ten True])
    moreover have "set h \<union> set ls \<subseteq> set (insertion_log h ls)" by (rule Cons.IH)
    moreover have "insertion_log h (l # ls) = insertion_log h ls" using True by simp
    ultimately show ?thesis by auto
  next
    case False
    have "set (h @ [l]) \<union> set ls \<subseteq> set (insertion_log (h @ [l]) ls)" by (rule Cons.IH)
    moreover have "insertion_log h (l # ls) = insertion_log (h @ [l]) ls" using False by simp
    ultimately show ?thesis by auto
  qed
qed

lemma insertion_log_distinct_labels:
  "distinct (h @ ls) \<Longrightarrow> insertion_log h ls = h @ ls"
proof (induction ls arbitrary: h)
  case Nil
  then show ?case by simp
next
  case (Cons l ls)
  from Cons.prems have nl: "l \<notin> set h" by simp
  have "l \<notin> set (last_ten h)"
  proof
    assume "l \<in> set (last_ten h)"
    then have "l \<in> set h" by (rule subsetD [OF set_last_ten])
    with nl show False by simp
  qed
  then have "insertion_log h (l # ls) = insertion_log (h @ [l]) ls" by simp
  moreover from Cons.prems have "distinct ((h @ [l]) @ ls)" by simp
  then have "insertion_log (h @ [l]) ls = (h @ [l]) @ ls" by (rule Cons.IH)
  ultimately show ?case by simp
qed

lemma insertion_log_length: "card (set ls) \<le> length (insertion_log [] ls)"
proof -
  have "set ls \<subseteq> set (insertion_log [] ls)" using insertion_log_superset [of "[]" ls] by simp
  then have "card (set ls) \<le> card (set (insertion_log [] ls))"
    by (simp add: card_mono)
  also have "\<dots> \<le> length (insertion_log [] ls)" by (rule card_length)
  finally show ?thesis .
qed

text \<open>
  Claim C1. Starting from a new Pattern, after any sequence of calls to \<open>counter\<close> each
  of the two counters holds exactly the last ten labels of its insertion history, in
  insertion order and without repetition, so never more than ten. Once eleven or more
  different labels have reached a counter it holds exactly ten. When the labels that
  reach a counter are pairwise different, what remains are the last ten of them: the
  labels inserted earliest are the ones evicted.
\<close>

theorem counter_retains_ten_most_recent:
  "\<exists>p. counter_calls (Pattern_init s r v ch) calls = Inr p
     \<and> odict_keys (success_counter p) = last_ten (insertion_log [] (success_labels calls))
     \<and> odict_keys (fail_counter p) = last_ten (insertion_log [] (fail_labels calls))
     \<and> distinct (odict_keys (success_counter p)) \<and> distinct (odict_keys (fail_counter p))
     \<and> length (success_counter p) \<le> 10 \<and> length (fail_counter p) \<le> 10
     \<and> (11 \<le> card (set (success_labels calls)) \<longrightarrow> length (success_counter p) = 10)
     \<and> (11 \<le> card (set (fail_labels calls)) \<longrightarrow> length (fail_counter p) = 10)
     \<and> (distinct (success_labels calls) \<longrightarrow>
          odict_keys (success_counter p) =
            drop (length (success_labels calls) - 10) (success_labels calls))
     \<and> (distinct (fail_labels calls) \<longrightarrow>
          odict_keys (fail_counter p) =
            drop (length (fail_labels calls) - 10) (fail_labels calls))"
proof -
  let ?sl = "success_labels calls" and ?fl = "fail_labels calls"
  have "map fst (success_counter (Pattern_init s r v ch)) = last_ten []"
    "map fst (fail_counter (Pattern_init s r v ch)) = last_ten []"
    by (simp_all add: Pattern_init_def last_ten_def)
  then obtain p where run: "counter_calls (Pattern_init s r v ch) calls = Inr p"
    and sk: "map fst (success_counter p) = last_ten (insertion_log [] ?sl)"
    and fk: "map fst (fail_counter p) = last_ten (insertion_log [] ?fl)"
    using counter_calls_keys by blast
  have ds: "distinct (map fst (success_counter p))"
    unfolding sk by (rule insertion_log_distinct) (simp add: last_ten_def)
  have df: "distinct (map fst (fail_counter p))"
    unfolding fk by (rule insertion_log_distinct) (simp add: last_ten_def)
  have ls: "length (success_counter p) = min 10 (length (insertion_log [] ?sl))"
    using arg_cong [OF sk, of length] by (simp add: length_last_ten)
  have lf: "length (fail_counter p) = min 10 (length (insertion_log [] ?fl))"
    using arg_cong [OF fk, of length] by (simp add: length_last_ten)
  have bs: "length (success_counter p) \<le> 10" using ls by simp
  have bf: "length (fail_counter p) \<le> 10" using lf by simp
  have fs: "11 \<le> card (set ?sl) \<longrightarrow> length (success_counter p) = 10"
    using insertion_log_length [of ?sl] ls by simp
  have ff: "11 \<le> card (set ?fl) \<longrightarrow> length (fail_counter p) = 10"
    using insertion_log_length [of ?fl] lf by simp
  have qs: "distinct ?sl \<longrightarrow> map fst (success_counter p) = drop (length ?sl - 10) ?sl"
  proof
    assume "distinct ?sl"
    then have "insertion_log [] ?sl = ?sl"
      using insertion_log_distinct_labels [of "[]" ?sl] by simp
    with sk show "map fst (success_counter p) = drop (length ?sl - 10) ?sl"
      by (simp add: last_ten_def)
  qed
  have qf: "distinct ?fl \<longrightarrow> map fst (fail_counter p) = drop (length ?fl - 10) ?fl"
  proof
    assume "distinct ?fl"
    then have "insertion_log [] ?fl = ?fl"
      using insertion_log_distinct_labels [of "[]" ?fl] by simp
    with fk show "map fst (fail_counter p) = drop (length ?fl - 10) ?fl"
      by (simp add: last_ten_def)
  qed
  show ?thesis
    unfolding odict_keys_def
    by (intro exI [of _ p] conjI) (fact run sk fk ds df bs bf fs ff qs qf)+
qed

lemma eleven_labels_run:
  "counter_calls (Pattern_init ''a.com'' None None \<lparr>global_blacklist = []\<rparr>)
          [(''t0'', True), (''t1'', True), (''t2'', True), (''t3'', True), (''t4'', True),
           (''t5'', True), (''t6'', True), (''t7'', True), (''t8'', True), (''t9'', True),
           (''ta'', True)] =
   Inr \<lparr>pattern_str = ''a.com'', checker = \<lparr>global_blacklist = []\<rparr>, rule = None, val = None,
        success_counter = [(''t1'', 1), (''t2'', 1), (''t3'', 1), (''t4'', 1), (''t5'', 1),
           (''t6'', 1), (''t7'', 1), (''t8'', 1), (''t9'', 1), (''ta'', 1)],
        fail_counter = []\<rparr>"
  by (simp add: Pattern_init_def counter_def counter_body_total counter_next_def last_ten_def)

theorem counter_retains_ten_most_recent_witness:
  "\<exists>p. counter_calls (Pattern_init ''a.com'' None None \<lparr>global_blacklist = []\<rparr>)
          [(''t0'', True), (''t1'', True), (''t2'', True), (''t3'', True), (''t4'', True),
           (''t5'', True), (''t6'', True), (''t7'', True), (''t8'', True), (''t9'', True),
           (''ta'', True)] = Inr p
     \<and> odict_keys (success_counter p) =
          [''t1'', ''t2'', ''t3'', ''t4'', ''t5'', ''t6'', ''t7'', ''t8'', ''t9'', ''ta'']
     \<and> length (success_counter p) = 10"
  using counter_retains_ten_most_recent [of "''a.com''" None None "\<lparr>global_blacklist = []\<rparr>"
          "[(''t0'', True), (''t1'', True), (''t2'', True), (''t3'', True), (''t4'', True),
           (''t5'', True), (''t6'', True), (''t7'', True), (''t8'', True), (''t9'', True),
           (''ta'', True)]"]
  unfolding eleven_labels_run
  by (simp add: success_labels_def fail_labels_def card_set last_ten_def odict_keys_def)










text \<open>
  Calls of \<open>counter\<close> one after the other with one label: the count is the number of calls.
\<close>

lemma counter_same_label_run:
  "counter_calls (p\<lparr>success_counter := [(l, k)]\<rparr>) (replicate n (l, True)) =
     Inr (p\<lparr>success_counter := [(l, k + int n)]\<rparr>)"
proof (induction n arbitrary: k)
  case 0
  then show ?case by simp
next
  case (Suc n)
  have "counter (p\<lparr>success_counter := [(l, k)]\<rparr>) l True =
          Inr (p\<lparr>success_counter := [(l, k + 1)]\<rparr>)"
    by (simp add: counter_def counter_body_total counter_next_def last_ten_def)
  then have "counter_calls (p\<lparr>success_counter := [(l, k)]\<rparr>) (replicate (Suc n) (l, True)) =
        counter_calls (p\<lparr>success_counter := [(l, k + 1)]\<rparr>) (replicate n (l, True))"
    by simp
  also have "\<dots> = Inr (p\<lparr>success_counter := [(l, k + 1 + int n)]\<rparr>)" by (rule Suc.IH)
  finally show ?case by (simp add: add.assoc add.commute)
qed

lemma counter_same_label_count:
  "counter_calls (Pattern_init s r v ch) (replicate (Suc n) (l, True)) =
     Inr ((Pattern_init s r v ch)\<lparr>success_counter := [(l, int (Suc n))]\<rparr>)"
proof -
  let ?p = "Pattern_init s r v ch"
  have "counter ?p l True = Inr (?p\<lparr>success_counter := [(l, 1)]\<rparr>)"
    by (simp add: counter_def counter_body_total counter_next_def last_ten_def Pattern_init_def)
  then have "counter_calls ?p (replicate (Suc n) (l, True)) =
        counter_calls (?p\<lparr>success_counter := [(l, 1)]\<rparr>) (replicate n (l, True))"
    by simp
  also have "\<dots> = Inr (?p\<lparr>success_counter := [(l, 1 + int n)]\<rparr>)"
    by (rule counter_same_label_run)
  finally show ?thesis by simp
qed

section \<open>Properties of the JSON text\<close>
















section \<open>Serialized patterns\<close>







section \<open>Properties of the trie\<close>

lemma prefix_steps_Nil:
  "prefix_steps t [] = (case t [] of None \<Rightarrow> [] | Some v \<Rightarrow> [([], v)])"
  by (simp add: prefix_steps_def split: option.splits)

lemma prefix_steps_snoc:
  "prefix_steps t (xs @ [x]) =
     prefix_steps t xs @ (case t (xs @ [x]) of None \<Rightarrow> [] | Some v \<Rightarrow> [(xs @ [x], v)])"
  by (simp add: prefix_steps_def map_filter_def split: option.splits)

lemma longest_prefix_Nil:
  "longest_prefix t [] = (case t [] of None \<Rightarrow> None | Some v \<Rightarrow> Some ([], v))"
  by (simp add: longest_prefix_def prefix_steps_Nil split: option.splits)

lemma longest_prefix_last:
  "longest_prefix t key =
     (if prefix_steps t key = [] then None else Some (last (prefix_steps t key)))"
  by (cases "prefix_steps t key") (simp_all add: longest_prefix_def)

lemma longest_prefix_snoc:
  "longest_prefix t (xs @ [x]) =
     (case t (xs @ [x]) of None \<Rightarrow> longest_prefix t xs | Some v \<Rightarrow> Some (xs @ [x], v))"
  by (simp add: longest_prefix_last prefix_steps_snoc split: option.splits)

lemma longest_prefix_None:
  "longest_prefix t key = None \<longleftrightarrow> (\<forall>k. prefix k key \<longrightarrow> t k = None)"
proof (induction key rule: rev_induct)
  case Nil
  then show ?case by (simp add: longest_prefix_Nil split: option.splits)
next
  case (snoc x xs)
  show ?case
  proof (cases "t (xs @ [x])")
    case None
    then have "longest_prefix t (xs @ [x]) = longest_prefix t xs"
      by (simp add: longest_prefix_snoc)
    with snoc.IH None show ?thesis by (auto simp: prefix_snoc)
  next
    case (Some v)
    then have l: "longest_prefix t (xs @ [x]) = Some (xs @ [x], v)"
      by (simp add: longest_prefix_snoc)
    show ?thesis
    proof
      assume "longest_prefix t (xs @ [x]) = None"
      with l show "\<forall>k. prefix k (xs @ [x]) \<longrightarrow> t k = None" by simp
    next
      assume "\<forall>k. prefix k (xs @ [x]) \<longrightarrow> t k = None"
      then have "t (xs @ [x]) = None" by simp
      with Some show "longest_prefix t (xs @ [x]) = None" by simp
    qed
  qed
qed

lemma longest_prefix_Some:
  "longest_prefix t key = Some (k, v) \<longleftrightarrow>
     t k = Some v \<and> prefix k key \<and> (\<forall>k'. prefix k' key \<and> t k' \<noteq> None \<longrightarrow> prefix k' k)"
proof (induction key rule: rev_induct)
  case Nil
  then show ?case by (auto simp: longest_prefix_Nil split: option.splits)
next
  case (snoc x xs)
  show ?case
  proof (cases "t (xs @ [x])")
    case None
    then have eq: "longest_prefix t (xs @ [x]) = longest_prefix t xs"
      by (simp add: longest_prefix_snoc)
    show ?thesis
    proof
      assume "longest_prefix t (xs @ [x]) = Some (k, v)"
      with eq snoc.IH have h: "t k = Some v" "prefix k xs"
        "\<forall>k'. prefix k' xs \<and> t k' \<noteq> None \<longrightarrow> prefix k' k" by simp_all
      from h(2) have "prefix k (xs @ [x])" by (simp add: prefix_snoc)
      moreover have "\<forall>k'. prefix k' (xs @ [x]) \<and> t k' \<noteq> None \<longrightarrow> prefix k' k"
        using h(3) None by (auto simp: prefix_snoc)
      ultimately show "t k = Some v \<and> prefix k (xs @ [x]) \<and>
          (\<forall>k'. prefix k' (xs @ [x]) \<and> t k' \<noteq> None \<longrightarrow> prefix k' k)"
        using h(1) by simp
    next
      assume a: "t k = Some v \<and> prefix k (xs @ [x]) \<and>
          (\<forall>k'. prefix k' (xs @ [x]) \<and> t k' \<noteq> None \<longrightarrow> prefix k' k)"
      with None have "k \<noteq> xs @ [x]" by auto
      with a have "prefix k xs" by (simp add: prefix_snoc)
      moreover from a have "\<forall>k'. prefix k' xs \<and> t k' \<noteq> None \<longrightarrow> prefix k' k"
        by (simp add: prefix_snoc)
      ultimately have "longest_prefix t xs = Some (k, v)" using a snoc.IH by simp
      with eq show "longest_prefix t (xs @ [x]) = Some (k, v)" by simp
    qed
  next
    case (Some w)
    then have eq: "longest_prefix t (xs @ [x]) = Some (xs @ [x], w)"
      by (simp add: longest_prefix_snoc)
    show ?thesis
    proof
      assume "longest_prefix t (xs @ [x]) = Some (k, v)"
      with eq have "k = xs @ [x]" "v = w" by simp_all
      with Some show "t k = Some v \<and> prefix k (xs @ [x]) \<and>
          (\<forall>k'. prefix k' (xs @ [x]) \<and> t k' \<noteq> None \<longrightarrow> prefix k' k)"
        by simp
    next
      assume a: "t k = Some v \<and> prefix k (xs @ [x]) \<and>
          (\<forall>k'. prefix k' (xs @ [x]) \<and> t k' \<noteq> None \<longrightarrow> prefix k' k)"
      with Some have "prefix (xs @ [x]) k" by simp
      with a have "k = xs @ [x]" by (simp add: prefix_order.antisym)
      with a Some eq show "longest_prefix t (xs @ [x]) = Some (k, v)" by simp
    qed
  qed
qed

lemma sentinel_text:
  \<open>json_dumps [(''rule'', None), (''value'', None)] = ''{"rule": null, "value": null}''\<close>
  by (simp add: json_dumps_def json_item_def json_dumps_value_def json_encode_str_def
        json_escape_char_def)

lemma remove_http_prefix_leading:
  assumes "\<not> prefix ''http'' url \<or> prefix ''http://'' url \<or> prefix ''https://'' url"
  shows "remove_http_prefix url = strip_protocol url"
proof -
  consider (plain) "\<not> prefix ''http'' url" | (http) "prefix ''http://'' url"
    | (https) "prefix ''https://'' url"
    using assms by blast
  then show ?thesis
  proof cases
    case plain
    have "\<not> prefix ''http://'' url" "\<not> prefix ''https://'' url"
      using plain by (auto simp: prefix_def)
    with plain show ?thesis by (simp add: remove_http_prefix_def strip_protocol_def)
  next
    case http
    then obtain r where url: "url = ''http://'' @ r" by (auto simp: prefix_def)
    show ?thesis unfolding url by (simp add: remove_http_prefix_def strip_protocol_def)
  next
    case https
    then obtain r where url: "url = ''https://'' @ r" by (auto simp: prefix_def)
    show ?thesis unfolding url by (simp add: remove_http_prefix_def strip_protocol_def)
  qed
qed

lemma closest_pattern_found:
  assumes "t k = Some v" and "prefix k (remove_http_prefix url)"
    and "\<forall>k'. prefix k' (remove_http_prefix url) \<and> t k' \<noteq> None \<longrightarrow> prefix k' k"
  shows "closest_pattern t url = (k, v)"
proof -
  from assms have "longest_prefix t (remove_http_prefix url) = Some (k, v)"
    by (simp add: longest_prefix_Some)
  then show ?thesis by (simp add: closest_pattern_def)
qed

lemma closest_pattern_sentinel:
  assumes "\<forall>k. prefix k (remove_http_prefix url) \<longrightarrow> t k = None"
  shows \<open>closest_pattern t url = (''public_proxies'', ''{"rule": null, "value": null}'')\<close>
proof -
  from assms have "longest_prefix t (remove_http_prefix url) = None"
    by (simp add: longest_prefix_None)
  then show ?thesis by (simp add: closest_pattern_def sentinel_text)
qed

lemma closest_pattern_example:
  \<open>closest_pattern (CheckPatternTrie_setitem Map.empty ''a.com'' v) ''http://a.com/x'' = (''a.com'', v)
   \<and> closest_pattern (CheckPatternTrie_setitem Map.empty ''a.com'' v) ''b.com''
       = (''public_proxies'', ''{"rule": null, "value": null}'')\<close>
  by (simp add: closest_pattern_def CheckPatternTrie_setitem_def CharTrie_setitem_def
        remove_http_prefix_def longest_prefix_def prefix_steps_def sentinel_text)

text \<open>
  Claim C2 at a URL that has no protocol prefix but starts with the letters
  \<^verbatim>\<open>http\<close> and holds \<^verbatim>\<open>http://\<close> further on. The same string is registered and then
  queried. The code removes the inner \<^verbatim>\<open>http://\<close> on both ways, so the pattern string
  it returns is not a prefix of the queried URL, which stripping a protocol prefix
  leaves unchanged.
\<close>

theorem closest_pattern_inner_scheme:
  "closest_pattern (CheckPatternTrie_setitem Map.empty ''httpbin.org/?u=http://x'' ''V'')
       ''httpbin.org/?u=http://x'' = (''httpbin.org/?u=x'', ''V'')
   \<and> strip_protocol ''httpbin.org/?u=http://x'' = ''httpbin.org/?u=http://x''
   \<and> \<not> prefix ''httpbin.org/?u=x'' ''httpbin.org/?u=http://x''"
  by (simp add: closest_pattern_def CheckPatternTrie_setitem_def CharTrie_setitem_def
        remove_http_prefix_def longest_prefix_def prefix_steps_def strip_protocol_def)

section \<open>Properties of the PatternManager\<close>


lemma add_entries:
  "patterns_index (add self p r v) p = Some (Pattern_init p r v (mgr_checker self))
   \<and> redis_hash (add self p r v) p = Some (dumps (Pattern_init p r v (mgr_checker self)))
   \<and> trie (add self p r v) (remove_http_prefix p) = Some (dumps (Pattern_init p r v (mgr_checker self)))"
  by (simp add: add_def CheckPatternTrie_setitem_def CharTrie_setitem_def Let_def)

lemma aenter_empty: "aenter ch [] = Inr (fresh_manager ch)"
  by (simp add: aenter_def patterns_def fresh_manager_def)




lemma delete_present:
  assumes "trie self p = Some x" and "patterns_index self p = Some y"
  shows "delete self p =
     Inr (self\<lparr> trie := (trie self)(p := None),
               patterns_index := (patterns_index self)(p := None),
               redis_hash := (redis_hash self)(p := None) \<rparr>)"
  using assms by (simp add: delete_def CharTrie_delitem_def)

lemma delete_absent_trie:
  assumes "trie self p = None"
  shows "delete self p = Inl (KeyError, self)"
  using assms by (simp add: delete_def CharTrie_delitem_def)

lemma delete_absent_index:
  assumes "trie self p = Some x" and "patterns_index self p = None"
  shows "delete self p = Inl (KeyError, self\<lparr> trie := (trie self)(p := None) \<rparr>)"
  using assms by (simp add: delete_def CharTrie_delitem_def)

lemma delete_succeeds_iff:
  "(\<exists>s. delete self p = Inr s) \<longleftrightarrow> trie self p \<noteq> None \<and> patterns_index self p \<noteq> None"
  by (auto simp: delete_def CharTrie_delitem_def Let_def split: option.splits)

lemma delete_after_add_plain:
  assumes "remove_http_prefix p = p"
  shows "\<exists>s. delete (add self p r v) p = Inr s
           \<and> trie s p = None \<and> patterns_index s p = None \<and> redis_hash s p = None"
proof -
  have "trie (add self p r v) p = Some (dumps (Pattern_init p r v (mgr_checker self)))"
    using assms add_entries [of self p r v] by simp
  moreover have "patterns_index (add self p r v) p = Some (Pattern_init p r v (mgr_checker self))"
    using add_entries [of self p r v] by simp
  ultimately show ?thesis by (simp add: delete_present)
qed

text \<open>
  Claim C8 at a pattern string with a protocol prefix: \<open>add\<close> stores the trie entry
  under the normalized key, \<open>delete\<close> looks the string up as given, so deleting the
  string just added raises \<^verbatim>\<open>KeyError\<close> and removes nothing.
\<close>

theorem delete_after_add_http_raises:
  "delete (add (fresh_manager \<lparr>global_blacklist = []\<rparr>) ''http://a.com'' None None) ''http://a.com''
     = Inl (KeyError, add (fresh_manager \<lparr>global_blacklist = []\<rparr>) ''http://a.com'' None None)
   \<and> patterns_index (add (fresh_manager \<lparr>global_blacklist = []\<rparr>) ''http://a.com'' None None)
        ''http://a.com'' \<noteq> None"
proof -
  let ?m = "add (fresh_manager \<lparr>global_blacklist = []\<rparr>) ''http://a.com'' None None"
  have "trie ?m ''http://a.com'' = None"
    by (simp add: add_def fresh_manager_def CheckPatternTrie_setitem_def CharTrie_setitem_def
          remove_http_prefix_def Let_def)
  then have "delete ?m ''http://a.com'' = Inl (KeyError, ?m)" by (rule delete_absent_trie)
  moreover have "patterns_index ?m ''http://a.com'' \<noteq> None" by (simp add: add_def Let_def)
  ultimately show ?thesis by simp
qed

end
